theory Spec2Isabelle
  imports
    Complex_Main
    "HOL-Library.Char_ord"
    "HOL-Library.List_Lexorder"
    "HOL-Library.Sublist"
    "HOL-Library.Multiset"
begin

section \<open>Data model\<close>

text \<open>
  The pipeline of the repository has three stages: \<open>filter.FilterResults\<close> selects runs
  from the result log, \<open>match.MatchResults\<close> validates the selected runs against the
  remote case list, and \<open>complete.CompleteRuns\<close> marks the validated runs complete.

  Go's \<open>int\<close> is modelled as \<open>int\<close>: run and case identifiers are only compared, and
  the counters of the validation stage count records of the log, so no 64-bit value
  wraps. Go compares strings byte by byte, lexicographically; that is the order of
  \<open>char list\<close> given by \<open>Char_ord\<close> and \<open>List_Lexorder\<close>.
\<close>

text \<open>
  \<open>TestResult\<close> of package \<open>filter\<close>, restricted to the fields the decision logic
  reads. The other fields (attachments, comment, hash, stack trace, steps, time spent)
  are decoded and never read. Package \<open>match\<close> decodes the same log lines into a
  struct holding a subset of these fields.
\<close>

record TestResult =
  CaseID :: int
  EndTime :: string
  RunID :: int
  Status :: string

section \<open>Selection: \<open>processResults\<close> of package \<open>filter\<close>\<close>

text \<open>
  A Go map from \<open>int\<close> to a slice is modelled as a function to lists, the absent key
  being the nil slice \<open>[]\<close> (what Go's lookup returns, and what \<open>append\<close> extends).
  Every key present holds at least one record, so the keys are the arguments with a
  non-empty list. The order in which \<open>range\<close> visits the keys of a map is not
  specified by Go; it is a parameter of the model wherever a map is ranged over.
\<close>

text \<open>
  The first inner loop of \<open>processResults\<close>: it clears \<open>allPassed\<close> at any record whose
  status is not \<open>passed\<close> and appends each record to the slice of its case.
\<close>

fun groupResults ::
  "TestResult list \<Rightarrow> bool \<Rightarrow> (int \<Rightarrow> TestResult list) \<Rightarrow> bool \<times> (int \<Rightarrow> TestResult list)"
where
  "groupResults [] allPassed caseStatuses = (allPassed, caseStatuses)"
| "groupResults (result # rest) allPassed caseStatuses =
     groupResults rest
       (if Status result \<noteq> ''passed'' then False else allPassed)
       (caseStatuses(CaseID result := caseStatuses (CaseID result) @ [result]))"

text \<open>The four variables of the loop over the records of one case.\<close>

record CaseOutcome =
  hasPassed :: bool
  latestPassedTime :: string
  latestOverallTime :: string
  latestOverallStatus :: string

definition initialOutcome :: CaseOutcome where
  "initialOutcome =
     \<lparr>hasPassed = False, latestPassedTime = [], latestOverallTime = [],
      latestOverallStatus = []\<rparr>"

text \<open>One iteration of the loop over \<open>caseResults\<close>.\<close>

definition trackResult :: "CaseOutcome \<Rightarrow> TestResult \<Rightarrow> CaseOutcome" where
  "trackResult st result =
     (let st1 =
        (if EndTime result > latestOverallTime st
         then st\<lparr>latestOverallTime := EndTime result, latestOverallStatus := Status result\<rparr>
         else st)
      in if Status result = ''passed''
         then (if EndTime result > latestPassedTime st1
               then st1\<lparr>hasPassed := True, latestPassedTime := EndTime result\<rparr>
               else st1\<lparr>hasPassed := True\<rparr>)
         else st1)"

definition caseOutcome :: "TestResult list \<Rightarrow> CaseOutcome" where
  "caseOutcome caseResults = foldl trackResult initialOutcome caseResults"

text \<open>
  The loop over \<open>caseStatuses\<close>, with its two \<open>break\<close>s. \<open>keys\<close> is the order in which
  \<open>range\<close> visits the cases. Beside \<open>keepRunID\<close> the model returns the cases whose
  records were examined, in order: a ghost value that makes the early exit visible.
\<close>

fun caseLoop ::
  "int list \<Rightarrow> (int \<Rightarrow> TestResult list) \<Rightarrow> bool \<Rightarrow> int list \<Rightarrow> bool \<times> int list"
where
  "caseLoop [] caseStatuses keepRunID visited = (keepRunID, visited)"
| "caseLoop (c # keys) caseStatuses keepRunID visited =
     (let oc = caseOutcome (caseStatuses c) in
      if hasPassed oc then
        if latestPassedTime oc = latestOverallTime oc \<and> latestOverallStatus oc = ''passed''
        then caseLoop keys caseStatuses True (visited @ [c])
        else (False, visited @ [c])
      else (False, visited @ [c]))"

text \<open>
  The body of the loop over \<open>runResults\<close>, for one run: whether the run ID is appended
  to \<open>selectedRunIDs\<close>, and the cases examined on the way.
\<close>

definition processRun :: "int list \<Rightarrow> TestResult list \<Rightarrow> bool \<times> int list" where
  "processRun keys results =
     (case groupResults results True (\<lambda>_. []) of
        (allPassed, caseStatuses) \<Rightarrow>
          if allPassed then (True, [])
          else caseLoop keys caseStatuses False [])"

text \<open>
  The loop over \<open>runResults\<close>: \<open>runOrder\<close> is the order in which \<open>range\<close> visits the run
  IDs and \<open>caseOrder runID\<close> the order in which it visits the cases of that run.
\<close>

fun selectLoop ::
  "int list \<Rightarrow> (int \<Rightarrow> int list) \<Rightarrow> (int \<Rightarrow> TestResult list) \<Rightarrow> int list \<Rightarrow> int list"
where
  "selectLoop [] caseOrder runResults selectedRunIDs = selectedRunIDs"
| "selectLoop (runID # rest) caseOrder runResults selectedRunIDs =
     selectLoop rest caseOrder runResults
       (if fst (processRun (caseOrder runID) (runResults runID))
        then selectedRunIDs @ [runID] else selectedRunIDs)"

text \<open>\<open>sort.Ints\<close> sorts in increasing order.\<close>

definition processResults ::
  "int list \<Rightarrow> (int \<Rightarrow> int list) \<Rightarrow> (int \<Rightarrow> TestResult list) \<Rightarrow> int list"
where
  "processResults runOrder caseOrder runResults =
     sort (selectLoop runOrder caseOrder runResults [])"

text \<open>
  The grouping loop of \<open>FilterResults\<close>: each decoded line of the log is appended to the
  slice of its run.
\<close>

fun groupByRun :: "TestResult list \<Rightarrow> (int \<Rightarrow> TestResult list) \<Rightarrow> (int \<Rightarrow> TestResult list)" where
  "groupByRun [] runResults = runResults"
| "groupByRun (result # rest) runResults =
     groupByRun rest (runResults(RunID result := runResults (RunID result) @ [result]))"

text \<open>
  The test of one case, as the nested conditionals of \<open>caseLoop\<close> decide it; used to
  state what the loop computes.
\<close>

definition caseKeeps :: "TestResult list \<Rightarrow> bool" where
  "caseKeeps caseResults =
     (let oc = caseOutcome caseResults in
      hasPassed oc \<and> latestPassedTime oc = latestOverallTime oc
        \<and> latestOverallStatus oc = ''passed'')"

text \<open>The records of one case of a run, in log order.\<close>

definition recordsOfCase :: "int \<Rightarrow> TestResult list \<Rightarrow> TestResult list" where
  "recordsOfCase c results = filter (\<lambda>r. CaseID r = c) results"

text \<open>A record of the log, written field by field in the examples below.\<close>

abbreviation mkResult :: "int \<Rightarrow> int \<Rightarrow> string \<Rightarrow> string \<Rightarrow> TestResult" where
  "mkResult run c st t \<equiv> \<lparr>CaseID = c, EndTime = t, RunID = run, Status = st\<rparr>"

section \<open>Validation: \<open>validateRunCases\<close> of package \<open>match\<close>\<close>

text \<open>
  The maps of this package have scalar values, and one of them is asked whether a key
  exists, so they are partial functions with Go's lookup written out: an absent key
  reads as the zero value of the value type.
\<close>

definition lookupInt :: "(int \<rightharpoonup> int) \<Rightarrow> int \<Rightarrow> int" where
  "lookupInt m k = (case m k of None \<Rightarrow> 0 | Some v \<Rightarrow> v)"

definition lookupBool :: "(int \<rightharpoonup> bool) \<Rightarrow> int \<Rightarrow> bool" where
  "lookupBool m k = (case m k of None \<Rightarrow> False | Some v \<Rightarrow> v)"

definition lookupString :: "(int \<rightharpoonup> string) \<Rightarrow> int \<Rightarrow> string" where
  "lookupString m k = (case m k of None \<Rightarrow> [] | Some v \<Rightarrow> v)"

text \<open>The statement \<open>m[k]++\<close>.\<close>

definition increment :: "(int \<rightharpoonup> int) \<Rightarrow> int \<Rightarrow> (int \<rightharpoonup> int)" where
  "increment m k = m(k \<mapsto> lookupInt m k + 1)"

subsection \<open>The variant that counts (first \<open>validateRunCases\<close> of \<open>match.go\<close>)\<close>

text \<open>The loop that builds \<open>caseCount\<close> from the case list of the remote service.\<close>

fun countCases :: "int list \<Rightarrow> (int \<rightharpoonup> int) \<Rightarrow> (int \<rightharpoonup> int)" where
  "countCases [] caseCount = caseCount"
| "countCases (caseID # rest) caseCount = countCases rest (increment caseCount caseID)"

record Tally =
  foundCases :: "int \<rightharpoonup> int"
  passedCases :: "int \<rightharpoonup> bool"

text \<open>One iteration of the loop over the local results.\<close>

definition tallyResult :: "int \<Rightarrow> Tally \<Rightarrow> TestResult \<Rightarrow> Tally" where
  "tallyResult runID t result =
     (if RunID result = runID then
        \<lparr>foundCases = increment (foundCases t) (CaseID result),
         passedCases =
           (if Status result \<noteq> ''passed'' then (passedCases t)(CaseID result \<mapsto> False)
            else if passedCases t (CaseID result) = None
                 then (passedCases t)(CaseID result \<mapsto> True)
                 else passedCases t)\<rparr>
      else t)"

text \<open>
  The loop over \<open>caseCount\<close>, which returns \<open>false\<close> at the first case that fails;
  \<open>keys\<close> is the order in which \<open>range\<close> visits the keys of \<open>caseCount\<close>.
\<close>

fun checkCounts :: "int list \<Rightarrow> (int \<rightharpoonup> int) \<Rightarrow> Tally \<Rightarrow> bool" where
  "checkCounts [] caseCount t = True"
| "checkCounts (caseID # keys) caseCount t =
     (if lookupInt (foundCases t) caseID < lookupInt caseCount caseID
         \<or> \<not> lookupBool (passedCases t) caseID
      then False
      else checkCounts keys caseCount t)"

definition validateRunCases :: "int list \<Rightarrow> int \<Rightarrow> int list \<Rightarrow> TestResult list \<Rightarrow> bool" where
  "validateRunCases keys runID caseIDs results =
     checkCounts keys (countCases caseIDs Map.empty)
       (foldl (tallyResult runID) \<lparr>foundCases = Map.empty, passedCases = Map.empty\<rparr> results)"

subsection \<open>The variant that compares end times (second \<open>validateRunCases\<close> of \<open>match.go\<close>)\<close>

text \<open>
  This variant prints the case list it is given and reads it nowhere else. Its maps
  \<open>foundCases\<close> and \<open>passedCases\<close> are written as in the variant that counts and never
  read.
\<close>

record Tally2 =
  foundCases2 :: "int \<rightharpoonup> int"
  latestPassTime :: "int \<rightharpoonup> string"
  passedCases2 :: "int \<rightharpoonup> bool"

definition tallyResult2 :: "int \<Rightarrow> Tally2 \<Rightarrow> TestResult \<Rightarrow> Tally2" where
  "tallyResult2 runID t result =
     (if RunID result = runID then
        (let t1 = t\<lparr>foundCases2 := increment (foundCases2 t) (CaseID result)\<rparr> in
         if Status result = ''passed'' then
           (let t2 = t1\<lparr>passedCases2 := (passedCases2 t1)(CaseID result \<mapsto> True)\<rparr> in
            if lookupString (latestPassTime t2) (CaseID result) = []
               \<or> EndTime result > lookupString (latestPassTime t2) (CaseID result)
            then t2\<lparr>latestPassTime := (latestPassTime t2)(CaseID result \<mapsto> EndTime result)\<rparr>
            else t2)
         else t1)
      else t)"

text \<open>The second loop over the local results, which returns \<open>false\<close> from inside.\<close>

fun checkLater :: "int \<Rightarrow> TestResult list \<Rightarrow> (int \<rightharpoonup> string) \<Rightarrow> bool" where
  "checkLater runID [] latest = True"
| "checkLater runID (result # rest) latest =
     (if RunID result = runID \<and> Status result \<noteq> ''passed'' then
        if lookupString latest (CaseID result) \<noteq> []
           \<and> EndTime result > lookupString latest (CaseID result)
        then False
        else checkLater runID rest latest
      else checkLater runID rest latest)"

definition validateRunCases2 :: "int \<Rightarrow> int list \<Rightarrow> TestResult list \<Rightarrow> bool" where
  "validateRunCases2 runID caseIDs results =
     checkLater runID results
       (latestPassTime
          (foldl (tallyResult2 runID)
             \<lparr>foundCases2 = Map.empty, latestPassTime = Map.empty, passedCases2 = Map.empty\<rparr>
             results))"

text \<open>The local records of one case of one run, in log order.\<close>

definition recordsOf :: "int \<Rightarrow> int \<Rightarrow> TestResult list \<Rightarrow> TestResult list" where
  "recordsOf runID c results = filter (\<lambda>r. RunID r = runID \<and> CaseID r = c) results"

section \<open>The remote calls\<close>

text \<open>
  \<open>time.Duration\<close> counts nanoseconds in a 64-bit integer; the constants below are
  far from its bounds.
\<close>

type_synonym Duration = int

definition Millisecond :: Duration where
  "Millisecond = 1000000"

definition Second :: Duration where
  "Second = 1000 * Millisecond"

text \<open>
  Of \<open>http.Client\<close> only the timeout matters here. \<open>http.DefaultClient\<close> is the zero
  client: its timeout is 0, which \<open>net/http\<close> reads as no timeout.
\<close>

record Client =
  Timeout :: Duration

definition DefaultClient :: Client where
  "DefaultClient = \<lparr>Timeout = 0\<rparr>"

text \<open>
  A response: its status code, and its body as \<open>io.ReadAll\<close> followed by
  \<open>json.Unmarshal\<close> into the caller's \<open>APIResponse\<close> gives it, \<open>None\<close> when the
  caller gets no decoded value and returns its failure value. \<open>Client.Do\<close> returns
  an error or else a response; what the remote service answers is not decided by the
  program, so the answer to each call is an input of the model.
\<close>

record 'b Response =
  StatusCode :: int
  Decoded :: "'b option"

datatype 'b DoResult = Failed string | Answered "'b Response"

text \<open>\<open>APIResponse\<close> of package \<open>match\<close>.\<close>

record MatchResponse =
  Status_match :: bool
  Result_ID :: int
  Result_Status :: int
  Result_Cases :: "int list"

text \<open>
  A run-time panic. The callers that write \<open>req, _ := http.NewRequest(...)\<close> drop the
  error of \<open>http.NewRequest\<close>; when it fails, for a project code with which the URL
  does not parse, the request is \<open>nil\<close> and \<open>req.Header.Add\<close> dereferences it. Nothing
  recovers the panic, so it ends the program.
\<close>

datatype crash = NilRequest

text \<open>
  \<open>fetchCasesForRunID\<close> (both variants of \<open>match.go\<close>): one call through
  \<open>http.DefaultClient\<close>. \<open>requestError\<close> says that \<open>http.NewRequest\<close> returned an error;
  the function then panics before any call. Beside the pair the function returns, the
  model returns the timeouts of the clients of the calls made, one entry per call.
\<close>

definition fetchCasesForRunID ::
  "bool \<Rightarrow> MatchResponse DoResult \<Rightarrow> (crash + int list \<times> bool) \<times> Duration list"
where
  "fetchCasesForRunID requestError answer =
     (if requestError then (Inl NilRequest, [])
      else
        (case answer of
           Failed err \<Rightarrow> (Inr ([], False), [Timeout DefaultClient])
         | Answered res \<Rightarrow>
             (case Decoded res of
                None \<Rightarrow> (Inr ([], False), [Timeout DefaultClient])
              | Some apiResp \<Rightarrow>
                  if \<not> Status_match apiResp \<or> Result_Status apiResp \<noteq> 0
                  then (Inr ([], False), [Timeout DefaultClient])
                  else (Inr (Result_Cases apiResp, True), [Timeout DefaultClient]))))"

section \<open>The hand-off files: \<open>readRunIDs\<close>\<close>

subsection \<open>The library functions \<open>readRunIDs\<close> and \<open>logError\<close> call\<close>

text \<open>
  Go strings are byte sequences, as \<open>string\<close> is, and \<open>strings.TrimSpace\<close> and \<open>fmt\<close>
  read them as UTF-8. Both take as white space the same characters: U+0009 to
  U+000D, U+0020, U+0085, U+00A0, U+1680, U+2000 to U+200A, U+2028, U+2029, U+202F,
  U+205F and U+3000. \<open>whiteSpace\<close> lists their encodings. A byte sequence decodes to
  one of these characters exactly when it is its encoding, since the decoder accepts
  the shortest encoding only; bytes that decode to nothing are read as U+FFFD, which
  is not white space.
\<close>

definition whiteSpace :: "string list" where
  "whiteSpace =
     [[CHR 0x09], [CHR 0x0A], [CHR 0x0B], [CHR 0x0C], [CHR 0x0D], [CHR 0x20],
      [CHR 0xC2, CHR 0x85], [CHR 0xC2, CHR 0xA0],
      [CHR 0xE1, CHR 0x9A, CHR 0x80],
      [CHR 0xE2, CHR 0x80, CHR 0x80], [CHR 0xE2, CHR 0x80, CHR 0x81],
      [CHR 0xE2, CHR 0x80, CHR 0x82], [CHR 0xE2, CHR 0x80, CHR 0x83],
      [CHR 0xE2, CHR 0x80, CHR 0x84], [CHR 0xE2, CHR 0x80, CHR 0x85],
      [CHR 0xE2, CHR 0x80, CHR 0x86], [CHR 0xE2, CHR 0x80, CHR 0x87],
      [CHR 0xE2, CHR 0x80, CHR 0x88], [CHR 0xE2, CHR 0x80, CHR 0x89],
      [CHR 0xE2, CHR 0x80, CHR 0x8A],
      [CHR 0xE2, CHR 0x80, CHR 0xA8], [CHR 0xE2, CHR 0x80, CHR 0xA9],
      [CHR 0xE2, CHR 0x80, CHR 0xAF], [CHR 0xE2, CHR 0x81, CHR 0x9F],
      [CHR 0xE3, CHR 0x80, CHR 0x80]]"

text \<open>
  The number of bytes of the white space character a string starts with, and of the
  one it ends with; 0 when there is none.
\<close>

definition spaceWidth :: "string \<Rightarrow> nat" where
  "spaceWidth s =
     (case find (\<lambda>w. prefix w s) whiteSpace of None \<Rightarrow> 0 | Some w \<Rightarrow> length w)"

definition spaceWidthEnd :: "string \<Rightarrow> nat" where
  "spaceWidthEnd s =
     (case find (\<lambda>w. suffix w s) whiteSpace of None \<Rightarrow> 0 | Some w \<Rightarrow> length w)"

lemma whiteSpace_nonempty:
  "w \<in> set whiteSpace \<Longrightarrow> w \<noteq> []"
  by (auto simp: whiteSpace_def)

lemma spaceWidth_drop:
  assumes "spaceWidth s \<noteq> 0"
  shows "length (drop (spaceWidth s) s) < length s"
proof -
  from assms obtain w where "find (\<lambda>w. prefix w s) whiteSpace = Some w"
    by (auto simp: spaceWidth_def split: option.splits)
  then have "w \<in> set whiteSpace" "prefix w s"
    by (auto simp: find_Some_iff)
  then have "s \<noteq> []"
    using whiteSpace_nonempty by auto
  with assms show ?thesis by simp
qed

lemma spaceWidthEnd_take:
  assumes "spaceWidthEnd s \<noteq> 0"
  shows "length (take (length s - spaceWidthEnd s) s) < length s"
proof -
  from assms obtain w where "find (\<lambda>w. suffix w s) whiteSpace = Some w"
    by (auto simp: spaceWidthEnd_def split: option.splits)
  then have "w \<in> set whiteSpace" "suffix w s"
    by (auto simp: find_Some_iff)
  then have "s \<noteq> []"
    using whiteSpace_nonempty by auto
  with assms show ?thesis by simp
qed

text \<open>
  \<open>strings.TrimSpace\<close>: the white space characters at the start are removed, then
  those at the end.
\<close>

function trimLeft :: "string \<Rightarrow> string" where
  "trimLeft s = (if spaceWidth s = 0 then s else trimLeft (drop (spaceWidth s) s))"
  by pat_completeness auto
termination
proof (relation "measure length")
  show "wf (measure length)" by simp
next
  fix s :: string
  assume "spaceWidth s \<noteq> 0"
  then show "(drop (spaceWidth s) s, s) \<in> measure length"
    using spaceWidth_drop [of s] by (simp del: length_drop)
qed

function trimRight :: "string \<Rightarrow> string" where
  "trimRight s =
     (if spaceWidthEnd s = 0 then s else trimRight (take (length s - spaceWidthEnd s) s))"
  by pat_completeness auto
termination
proof (relation "measure length")
  show "wf (measure length)" by simp
next
  fix s :: string
  assume "spaceWidthEnd s \<noteq> 0"
  then show "(take (length s - spaceWidthEnd s) s, s) \<in> measure length"
    using spaceWidthEnd_take [of s] by (simp del: length_take)
qed

declare trimLeft.simps [simp del]

declare trimRight.simps [simp del]

definition TrimSpace :: "string \<Rightarrow> string" where
  "TrimSpace s = trimRight (trimLeft s)"

text \<open>
  \<open>strings.Split\<close> with a separator of one byte: the pieces between the separators,
  one more than there are separators, so at least one piece.
\<close>

fun Split :: "string \<Rightarrow> char \<Rightarrow> string list" where
  "Split [] sep = [[]]"
| "Split (c # cs) sep =
     (if c = sep then [] # Split cs sep
      else (case Split cs sep of
              [] \<Rightarrow> [[c]]
            | part # parts \<Rightarrow> (c # part) # parts))"

definition isDigit :: "char \<Rightarrow> bool" where
  "isDigit c = (c \<in> set ''0123456789'')"

definition digitValue :: "char \<Rightarrow> int" where
  "digitValue c = int (of_char c) - 48"

definition decimal :: "string \<Rightarrow> int" where
  "decimal ds = foldl (\<lambda>v c. 10 * v + digitValue c) 0 ds"

text \<open>
  The space skipping of \<open>fmt.Sscanf\<close>: white space characters are passed over, but a
  line feed is the error \<open>unexpected newline\<close>.
\<close>

function skipSpace :: "string \<Rightarrow> string option" where
  "skipSpace s =
     (if s = [] then Some []
      else if hd s = CHR 0x0A then None
      else if spaceWidth s = 0 then Some s
      else skipSpace (drop (spaceWidth s) s))"
  by pat_completeness auto
termination
proof (relation "measure length")
  show "wf (measure length)" by simp
next
  fix s :: string
  assume "spaceWidth s \<noteq> 0"
  then show "(drop (spaceWidth s) s, s) \<in> measure length"
    using spaceWidth_drop [of s] by (simp del: length_drop)
qed

declare skipSpace.simps [simp del]

text \<open>
  \<open>fmt.Sscanf(part, "%d", &id)\<close>: the value stored in \<open>id\<close>, or \<open>None\<close> when the scan
  fails and \<open>id\<close> is left alone. The verb skips leading space, fails at the end of the
  input, accepts one sign, needs a decimal digit and takes the digits that follow;
  the sign and the digits must be a number that fits a signed 64-bit integer. Input
  left after the digits is not read.
\<close>

definition Sscanf_d :: "string \<Rightarrow> int option" where
  "Sscanf_d part =
     (case skipSpace part of
        None \<Rightarrow> None
      | Some [] \<Rightarrow> None
      | Some (c # cs) \<Rightarrow>
          (let negative = (c = CHR ''-'');
               rest = (if c = CHR ''-'' \<or> c = CHR ''+'' then cs else c # cs);
               digits = takeWhile isDigit rest;
               v = (if negative then - decimal digits else decimal digits)
           in if digits = [] then None
              else if - (2 ^ 63) \<le> v \<and> v < 2 ^ 63 then Some v
              else None))"




subsection \<open>\<open>readRunIDs\<close>\<close>

text \<open>
  \<open>readRunIDs\<close> (the same in every variant of packages \<open>match\<close> and \<open>complete\<close>). The
  file is \<open>None\<close> when \<open>os.ReadFile\<close> fails. \<open>id\<close> is declared inside the loop, so it is
  0 before each scan, and the error of \<open>Sscanf\<close> is dropped.
\<close>

definition readRunIDs :: "string option \<Rightarrow> int list" where
  "readRunIDs file =
     (case file of
        None \<Rightarrow> []
      | Some content \<Rightarrow>
          map (\<lambda>part. case Sscanf_d part of None \<Rightarrow> 0 | Some v \<Rightarrow> v)
            (Split (TrimSpace content) CHR '',''))"

section \<open>\<open>MatchResults\<close> of package \<open>match\<close>\<close>

text \<open>
  After the check of the two settings, \<open>MatchResults\<close> reads the run IDs of
  \<open>filtered.txt\<close>. Its main loop acquires one of five semaphore slots and starts a
  goroutine for the next run ID; each goroutine decides its run, appends the ID to
  \<open>validRunIDs\<close> under the mutex when the run is valid, and releases its slot. After \<open>wg.Wait\<close> the list is
  joined with commas and written to \<open>final.txt\<close> as it stands. The interleaving is
  chosen by the scheduler and by the latency of the remote calls: it is an input of
  the model, a list of events. An append and the release that follows it are one
  event, since nothing the program writes depends on what happens in between.
\<close>

datatype event = Spawn | Finish int

record MatchState =
  pending :: "int list"
  running :: "int list"
  validRunIDs :: "int list"

text \<open>
  \<open>confirmed runID\<close> is the condition of the goroutine,
  \<open>valid && validateRunCases(runID, cases, results)\<close>. An event that cannot happen in
  the state gives \<open>None\<close>.
\<close>

definition matchStep :: "(int \<Rightarrow> bool) \<Rightarrow> event \<Rightarrow> MatchState \<Rightarrow> MatchState option" where
  "matchStep confirmed e st =
     (case e of
        Spawn \<Rightarrow>
          (case pending st of
             [] \<Rightarrow> None
           | runID # rest \<Rightarrow>
               if length (running st) < 5
               then Some (st\<lparr>pending := rest, running := running st @ [runID]\<rparr>)
               else None)
      | Finish runID \<Rightarrow>
          if runID \<in> set (running st)
          then Some (st\<lparr>running := remove1 runID (running st),
                         validRunIDs := (if confirmed runID then validRunIDs st @ [runID]
                                         else validRunIDs st)\<rparr>)
          else None)"

fun runSchedule :: "(int \<Rightarrow> bool) \<Rightarrow> event list \<Rightarrow> MatchState \<Rightarrow> MatchState option" where
  "runSchedule confirmed [] st = Some st"
| "runSchedule confirmed (e # es) st =
     (case matchStep confirmed e st of
        None \<Rightarrow> None
      | Some st' \<Rightarrow> runSchedule confirmed es st')"

text \<open>
  The IDs written to \<open>final.txt\<close>, in the order written. The result is \<open>None\<close> when
  nothing is written, because one of the two settings is missing, and when the
  schedule is not a complete execution, in which every goroutine starts and finishes.
\<close>

definition MatchResults ::
  "string \<Rightarrow> string \<Rightarrow> string option \<Rightarrow> (int \<Rightarrow> bool) \<Rightarrow> event list \<Rightarrow> int list option"
where
  "MatchResults apiToken projectCode filteredTxt confirmed schedule =
     (if apiToken = [] \<or> projectCode = [] then None
      else
        (case runSchedule confirmed schedule
                \<lparr>pending = readRunIDs filteredTxt, running = [], validRunIDs = []\<rparr> of
           None \<Rightarrow> None
         | Some st \<Rightarrow>
             if pending st = [] \<and> running st = [] then Some (validRunIDs st) else None))"

text \<open>
  The condition of the goroutine, for the variant of \<open>match.go\<close> that counts and for a
  project code with which \<open>http.NewRequest\<close> builds the request. With any other project
  code the goroutine panics before it reaches the condition and the program ends with
  nothing written; no goroutine then finishes, and such a run of the program is
  outside the instances below.
\<close>

definition confirmedRun ::
  "(int \<Rightarrow> MatchResponse DoResult) \<Rightarrow> (int \<Rightarrow> int list) \<Rightarrow> TestResult list \<Rightarrow> int \<Rightarrow> bool"
where
  "confirmedRun remote keys results runID =
     (case fst (fetchCasesForRunID False (remote runID)) of
        Inl panic \<Rightarrow> False
      | Inr (cases, valid) \<Rightarrow> valid \<and> validateRunCases (keys runID) runID cases results)"

text \<open>The schedule in which every goroutine finishes before the next one starts.\<close>

fun sequential :: "int list \<Rightarrow> event list" where
  "sequential [] = []"
| "sequential (runID # rest) = Spawn # Finish runID # sequential rest"

section \<open>The retrying executor of package \<open>complete\<close>\<close>

record RetryConfig =
  MaxRetries :: int
  InitialDelay :: Duration
  MaxDelay :: Duration
  BackoffFactor :: real
  RequestTimeout :: Duration

definition defaultRetryConfig :: RetryConfig where
  "defaultRetryConfig =
     \<lparr>MaxRetries = 3, InitialDelay = 500 * Millisecond, MaxDelay = 10 * Second,
      BackoffFactor = 2, RequestTimeout = 30 * Second\<rparr>"

text \<open>The package-level client, built once from the default configuration.\<close>

definition httpClient :: Client where
  "httpClient = \<lparr>Timeout = RequestTimeout defaultRetryConfig\<rparr>"

text \<open>The error argument is \<open>None\<close> for Go's \<open>nil\<close>.\<close>

definition isRetryableError :: "string option \<Rightarrow> int \<Rightarrow> bool" where
  "isRetryableError err statusCode =
     (if err \<noteq> None then True
      else if statusCode = 429 then True
      else if statusCode = 500 \<or> statusCode = 502 \<or> statusCode = 503 \<or> statusCode = 504 then True
      else False)"

text \<open>
  The two errors \<open>retryableHTTPRequest\<close> builds with \<open>fmt.Errorf\<close>, by their arguments:
  \<open>non-retryable HTTP error: %d\<close> with the status code, and
  \<open>request failed after %d attempts: %v\<close> with the number of attempts and \<open>lastErr\<close>,
  which \<open>%v\<close> prints as \<open><nil>\<close> when it is \<open>nil\<close>.
\<close>

datatype reqError = NonRetryableHTTP int | AttemptsFailed int "string option"

text \<open>What \<open>retryableHTTPRequest\<close> returns: a response and no error, or an error
  beside the response variable as the last call left it.\<close>

datatype 'b Outcome = Success "'b Response" | Failure "'b Response option" reqError

text \<open>
  The loop of \<open>retryableHTTPRequest\<close> from a given value of \<open>attempt\<close>. \<open>world k\<close> is the
  answer to call number \<open>k\<close> of this request; \<open>resp\<close> and \<open>lastErr\<close> are the two
  variables as the previous iteration left them; \<open>calls\<close> collects the timeout of the
  client of each call made. Every call goes through \<open>httpClient\<close>; the loop reads
  \<open>MaxRetries\<close> of its configuration, and the delay computation, which only sets how
  long the loop sleeps between two attempts, reads the delays and the factor. The
  sleeps are not modelled.
\<close>

function retryFrom ::
  "RetryConfig \<Rightarrow> (nat \<Rightarrow> 'b DoResult) \<Rightarrow> int \<Rightarrow> 'b Response option \<Rightarrow> string option
     \<Rightarrow> Duration list \<Rightarrow> 'b Outcome \<times> Duration list"
where
  "retryFrom config world attempt resp lastErr calls =
     (if attempt \<le> MaxRetries config then
        (case world (nat attempt) of
           Answered r \<Rightarrow>
             if 200 \<le> StatusCode r \<and> StatusCode r < 300
             then (Success r, calls @ [Timeout httpClient])
             else if \<not> isRetryableError None (StatusCode r)
             then (Failure (Some r) (NonRetryableHTTP (StatusCode r)), calls @ [Timeout httpClient])
             else retryFrom config world (attempt + 1) (Some r) None (calls @ [Timeout httpClient])
         | Failed err \<Rightarrow>
             retryFrom config world (attempt + 1) None (Some err) (calls @ [Timeout httpClient]))
      else (Failure resp (AttemptsFailed (MaxRetries config + 1) lastErr), calls))"
  by pat_completeness auto
termination
  by (relation "measure (\<lambda>(config, world, attempt, resp, lastErr, calls).
        nat (MaxRetries config + 1 - attempt))") auto

declare retryFrom.simps [simp del]

definition retryableHTTPRequest ::
  "(nat \<Rightarrow> 'b DoResult) \<Rightarrow> RetryConfig \<Rightarrow> 'b Outcome \<times> Duration list"
where
  "retryableHTTPRequest world config = retryFrom config world 0 None None []"

text \<open>
  Three readings of the answer to one call, used to state what the loop does: whether
  the loop goes on after it (an error of the call, or a status outside 200..299 that
  \<open>isRetryableError\<close> accepts), and the values of \<open>resp\<close> and \<open>lastErr\<close> after it.
\<close>

definition retryableFailure :: "'b DoResult \<Rightarrow> bool" where
  "retryableFailure answer =
     (case answer of
        Failed err \<Rightarrow> True
      | Answered r \<Rightarrow>
          \<not> (200 \<le> StatusCode r \<and> StatusCode r < 300) \<and> isRetryableError None (StatusCode r))"

definition respAfter :: "'b DoResult \<Rightarrow> 'b Response option" where
  "respAfter answer = (case answer of Failed err \<Rightarrow> None | Answered r \<Rightarrow> Some r)"

definition lastErrAfter :: "'b DoResult \<Rightarrow> string option" where
  "lastErrAfter answer = (case answer of Failed err \<Rightarrow> Some err | Answered r \<Rightarrow> None)"

section \<open>Completion: package \<open>complete\<close>\<close>

text \<open>\<open>APIResponse\<close> of package \<open>complete\<close>.\<close>

record APIResponse =
  Status_api :: bool
  ErrorMessage :: string

text \<open>The configuration \<open>completeRun\<close> builds for its call.\<close>

definition completionRetryConfig :: RetryConfig where
  "completionRetryConfig =
     \<lparr>MaxRetries = 2, InitialDelay = 300 * Millisecond, MaxDelay = 5 * Second,
      BackoffFactor = 2, RequestTimeout = 20 * Second\<rparr>"

text \<open>
  \<open>completeRun\<close> of the variant with the retrying executor. \<open>requestError\<close> says that
  \<open>http.NewRequest\<close> returned an error, which this variant checks. The model returns
  the result and the timeouts of the clients of the calls made.
\<close>

definition completeRun :: "bool \<Rightarrow> (nat \<Rightarrow> APIResponse DoResult) \<Rightarrow> bool \<times> Duration list" where
  "completeRun requestError world =
     (if requestError then (False, [])
      else
        (case retryableHTTPRequest world completionRetryConfig of
           (Failure res err, calls) \<Rightarrow> (False, calls)
         | (Success res, calls) \<Rightarrow>
             (case Decoded res of
                None \<Rightarrow> (False, calls)
              | Some apiResp \<Rightarrow> (Status_api apiResp, calls))))"

text \<open>
  \<open>completeRun\<close> of the variants without the executor (\<open>complete/complete.go\<close> and the
  second variant of the package): one call through \<open>http.DefaultClient\<close>. These variants
  drop the error of \<open>http.NewRequest\<close>, so with \<open>requestError\<close> the function panics
  before any call.
\<close>

definition completeRunOnce ::
  "bool \<Rightarrow> APIResponse DoResult \<Rightarrow> (crash + bool) \<times> Duration list"
where
  "completeRunOnce requestError answer =
     (if requestError then (Inl NilRequest, [])
      else
        (case answer of
           Failed err \<Rightarrow> (Inr False, [Timeout DefaultClient])
         | Answered res \<Rightarrow>
             (case Decoded res of
                None \<Rightarrow> (Inr False, [Timeout DefaultClient])
              | Some apiResp \<Rightarrow> (Inr (Status_api apiResp), [Timeout DefaultClient]))))"

section \<open>The error ledger and \<open>CompleteRuns\<close>\<close>







text \<open>
  The value the end-time variant keeps for a case, as a function of the records of the
  case in log order: the latest end time of a passing record, a passing record with a
  later end time replacing the value and any passing record replacing the empty one.
\<close>

definition latestPass :: "TestResult list \<Rightarrow> string" where
  "latestPass rs = foldl (\<lambda>best r. if Status r = ''passed'' \<and> (best = [] \<or> EndTime r > best) then EndTime r else best) [] rs"


text \<open>Two responses of the examples: a status the executor retries and one it does not.\<close>

abbreviation status503 :: "APIResponse Response" where
  "status503 \<equiv> \<lparr>StatusCode = 503, Decoded = None\<rparr>"

abbreviation status404 :: "APIResponse Response" where
  "status404 \<equiv> \<lparr>StatusCode = 404, Decoded = None\<rparr>"


text \<open>
  The confirmed run IDs of a state of \<open>MatchResults\<close>, written or still to come; no
  event changes this multiset.
\<close>

definition inFlight :: "(int \<Rightarrow> bool) \<Rightarrow> MatchState \<Rightarrow> int multiset" where
  "inFlight confirmed st =
     mset (validRunIDs st) + mset (filter confirmed (running st))
       + mset (filter confirmed (pending st))"


text \<open>
  For the examples: the answer of the remote service for a run in progress with the
  given cases, and a log of two runs.
\<close>

abbreviation inProgress :: "int list \<Rightarrow> MatchResponse DoResult" where
  "inProgress cs \<equiv>
     Answered \<lparr>StatusCode = 200,
       Decoded = Some \<lparr>Status_match = True, Result_ID = 0, Result_Status = 0, Result_Cases = cs\<rparr>\<rparr>"

abbreviation twoRuns :: "TestResult list" where
  "twoRuns \<equiv>
     [mkResult 1 5 ''passed'' ''2024-05-01T10:00:00Z'',
      mkResult 2 5 ''passed'' ''2024-05-01T10:05:00Z'']"

section \<open>Properties of the selection stage\<close>

lemma groupResults_eq:
  "groupResults results a m =
     (a \<and> list_all (\<lambda>r. Status r = ''passed'') results,
      \<lambda>c. m c @ recordsOfCase c results)"
proof (induction results arbitrary: a m)
  case Nil
  show ?case by (simp add: recordsOfCase_def)
next
  case (Cons r rs)
  show ?case
    unfolding groupResults.simps Cons.IH
    by (auto simp: recordsOfCase_def fun_eq_iff)
qed

lemma groupByRun_eq:
  "groupByRun records m = (\<lambda>runID. m runID @ filter (\<lambda>r. RunID r = runID) records)"
proof (induction records arbitrary: m)
  case Nil
  show ?case by simp
next
  case (Cons r rs)
  show ?case
    unfolding groupByRun.simps Cons.IH
    by (auto simp: fun_eq_iff)
qed

lemma caseLoop_fst:
  "fst (caseLoop keys m keep visited) =
     (if keys = [] then keep else list_all (\<lambda>c. caseKeeps (m c)) keys)"
proof (induction keys arbitrary: keep visited)
  case Nil
  show ?case by simp
next
  case (Cons c keys)
  have IH: "fst (caseLoop keys m True (visited @ [c])) =
      (if keys = [] then True else list_all (\<lambda>c. caseKeeps (m c)) keys)"
    by (rule Cons.IH)
  show ?case
    by (cases "keys = []") (auto simp: IH caseKeeps_def Let_def)
qed

lemma caseLoop_visited_prefix:
  "prefix (snd (caseLoop keys m keep visited)) (visited @ keys)"
proof (induction keys arbitrary: keep visited)
  case Nil
  show ?case by simp
next
  case (Cons c keys)
  have "prefix (snd (caseLoop keys m True (visited @ [c]))) ((visited @ [c]) @ keys)"
    by (rule Cons.IH)
  then show ?case
    by (auto simp: Let_def)
qed

lemma caseLoop_stops:
  assumes "\<not> caseKeeps (m c)"
  shows "prefix (snd (caseLoop (pre @ c # post) m keep visited)) (visited @ pre @ [c])"
  using assms
proof (induction pre arbitrary: keep visited)
  case Nil
  then show ?case
    by (auto simp: caseKeeps_def Let_def)
next
  case (Cons k pre)
  have "prefix (snd (caseLoop (pre @ c # post) m True (visited @ [k])))
          ((visited @ [k]) @ pre @ [c])"
    using Cons.prems by (rule Cons.IH)
  then show ?case
    by (auto simp: Let_def)
qed

lemma processRun_fst:
  "fst (processRun keys results) =
     (list_all (\<lambda>r. Status r = ''passed'') results
      \<or> (keys \<noteq> [] \<and> list_all (\<lambda>c. caseKeeps (recordsOfCase c results)) keys))"
  by (simp add: processRun_def groupResults_eq caseLoop_fst)

lemma selectLoop_set:
  "set (selectLoop runOrder caseOrder runResults acc) =
     set acc \<union> {runID \<in> set runOrder. fst (processRun (caseOrder runID) (runResults runID))}"
  by (induction runOrder arbitrary: acc) auto

lemma processResults_set:
  "set (processResults runOrder caseOrder runResults) =
     {runID \<in> set runOrder. fst (processRun (caseOrder runID) (runResults runID))}"
  by (simp add: processResults_def selectLoop_set)

subsection \<open>The scan of one case\<close>

lemma caseOutcome_Nil: "caseOutcome [] = initialOutcome"
  by (simp add: caseOutcome_def)

lemma caseOutcome_snoc: "caseOutcome (xs @ [x]) = trackResult (caseOutcome xs) x"
  by (simp add: caseOutcome_def)

lemma hasPassed_iff: "hasPassed (caseOutcome xs) = (\<exists>r\<in>set xs. Status r = ''passed'')"
  by (induction xs rule: rev_induct)
     (auto simp: caseOutcome_Nil caseOutcome_snoc initialOutcome_def trackResult_def Let_def)

lemma overall_upper: "r \<in> set xs \<Longrightarrow> EndTime r \<le> latestOverallTime (caseOutcome xs)"
  by (induction xs rule: rev_induct)
     (auto simp: caseOutcome_snoc trackResult_def Let_def)

lemma overall_status_passed:
  "latestOverallStatus (caseOutcome xs) = ''passed'' \<Longrightarrow>
     \<exists>r\<in>set xs. Status r = ''passed'' \<and> EndTime r = latestOverallTime (caseOutcome xs)"
  by (induction xs rule: rev_induct)
     (auto simp: caseOutcome_Nil caseOutcome_snoc initialOutcome_def trackResult_def Let_def
           split: if_splits)

lemma passed_upper:
  "r \<in> set xs \<Longrightarrow> Status r = ''passed'' \<Longrightarrow> EndTime r \<le> latestPassedTime (caseOutcome xs)"
  by (induction xs rule: rev_induct)
     (auto simp: caseOutcome_snoc trackResult_def Let_def)

lemma passed_attained:
  "latestPassedTime (caseOutcome xs) = [] \<or>
     (\<exists>r\<in>set xs. Status r = ''passed'' \<and> EndTime r = latestPassedTime (caseOutcome xs))"
  by (induction xs rule: rev_induct)
     (auto simp: caseOutcome_Nil caseOutcome_snoc initialOutcome_def trackResult_def Let_def)

lemma caseKeeps_latest:
  assumes "caseKeeps xs"
  shows "\<exists>p\<in>set xs. Status p = ''passed'' \<and> (\<forall>r\<in>set xs. EndTime r \<le> EndTime p)"
proof -
  from assms have "latestOverallStatus (caseOutcome xs) = ''passed''"
    by (simp add: caseKeeps_def Let_def)
  then obtain p where p: "p \<in> set xs" "Status p = ''passed''"
      "EndTime p = latestOverallTime (caseOutcome xs)"
    using overall_status_passed by blast
  have "\<forall>r\<in>set xs. EndTime r \<le> EndTime p"
    using overall_upper p(3) by simp
  with p show ?thesis by blast
qed

lemma later_failure_rejects:
  assumes f: "f \<in> set xs"
      and later: "\<forall>p\<in>set xs. Status p = ''passed'' \<longrightarrow> EndTime p < EndTime f"
      and some: "\<exists>p\<in>set xs. Status p = ''passed''"
  shows "\<not> caseKeeps xs"
proof
  assume k: "caseKeeps xs"
  have ge: "EndTime f \<le> latestOverallTime (caseOutcome xs)"
    using f by (rule overall_upper)
  from k have eq: "latestPassedTime (caseOutcome xs) = latestOverallTime (caseOutcome xs)"
    by (simp add: caseKeeps_def Let_def)
  from passed_attained [of xs] show False
  proof
    assume "latestPassedTime (caseOutcome xs) = []"
    with eq ge have "EndTime f = []" by simp
    with later some show False by auto
  next
    assume "\<exists>r\<in>set xs. Status r = ''passed'' \<and> EndTime r = latestPassedTime (caseOutcome xs)"
    then obtain r where "r \<in> set xs" "Status r = ''passed''"
        "EndTime r = latestPassedTime (caseOutcome xs)" by blast
    with later eq ge show False by auto
  qed
qed

lemma two_records_keep:
  assumes "xs = [p, f] \<or> xs = [f, p]" "Status p = ''passed''" "Status f \<noteq> ''passed''"
    "EndTime f < EndTime p"
  shows "caseKeeps xs"
proof -
  have pos: "[] < EndTime p"
    using assms(4) by (cases "EndTime p") auto
  have nlt: "\<not> EndTime p < EndTime f"
    using assms(4) by auto
  show ?thesis
    using assms(1-3) pos nlt assms(4)
    by (auto simp: caseKeeps_def caseOutcome_def initialOutcome_def trackResult_def Let_def)
qed

subsection \<open>The claims about selection\<close>


lemma list_all_removeAll:
  "c \<in> set keys \<Longrightarrow> list_all P keys = (P c \<and> list_all P (removeAll c keys))"
  by (auto simp: list_all_iff)

text \<open>
  Claim C1 (latest wins). \<open>keys\<close> is any order in which \<open>range\<close> may visit the
  cases of the run. First, when a run that is not all passed is selected, every case
  of it with a passing record ends the scan with \<open>latestPassedTime\<close> equal to
  \<open>latestOverallTime\<close> and \<open>latestOverallStatus\<close> equal to \<open>passed\<close>, and some
  passing record of the case has an end time that no record of the case exceeds.
  Second, for a case whose records are one passing record \<open>p\<close> and one non-passing
  record \<open>f\<close>, in either log order: if \<open>f\<close> ends later than \<open>p\<close> the run is not
  selected; if \<open>f\<close> ends earlier than \<open>p\<close> the run is selected exactly when all its
  other cases pass the same test.
\<close>

theorem latest_wins:
  assumes keys: "set keys = CaseID ` set results"
  shows
    "(\<not> list_all (\<lambda>r. Status r = ''passed'') results \<and> fst (processRun keys results) \<longrightarrow>
        (\<forall>c. (\<exists>r\<in>set (recordsOfCase c results). Status r = ''passed'') \<longrightarrow>
           latestPassedTime (caseOutcome (recordsOfCase c results))
             = latestOverallTime (caseOutcome (recordsOfCase c results))
         \<and> latestOverallStatus (caseOutcome (recordsOfCase c results)) = ''passed''
         \<and> (\<exists>p\<in>set (recordsOfCase c results). Status p = ''passed''
               \<and> (\<forall>r\<in>set (recordsOfCase c results). EndTime r \<le> EndTime p))))
   \<and> (\<forall>c p f. (recordsOfCase c results = [p, f] \<or> recordsOfCase c results = [f, p])
            \<and> Status p = ''passed'' \<and> Status f \<noteq> ''passed'' \<longrightarrow>
         (EndTime p < EndTime f \<longrightarrow> \<not> fst (processRun keys results))
       \<and> (EndTime f < EndTime p \<longrightarrow>
            fst (processRun keys results)
              = list_all (\<lambda>c'. caseKeeps (recordsOfCase c' results)) (removeAll c keys)))"
proof (intro conjI impI allI)
  fix c
  assume sel: "\<not> list_all (\<lambda>r. Status r = ''passed'') results \<and> fst (processRun keys results)"
    and pass: "\<exists>r\<in>set (recordsOfCase c results). Status r = ''passed''"
  from pass have "c \<in> CaseID ` set results"
    by (auto simp: recordsOfCase_def)
  then have c: "c \<in> set keys" using keys by simp
  from sel have "list_all (\<lambda>c. caseKeeps (recordsOfCase c results)) keys"
    by (auto simp: processRun_fst)
  with c have k: "caseKeeps (recordsOfCase c results)"
    by (simp add: list_all_iff)
  then show "latestPassedTime (caseOutcome (recordsOfCase c results))
             = latestOverallTime (caseOutcome (recordsOfCase c results))"
    and "latestOverallStatus (caseOutcome (recordsOfCase c results)) = ''passed''"
    by (simp_all add: caseKeeps_def Let_def)
  from k show "\<exists>p\<in>set (recordsOfCase c results). Status p = ''passed''
               \<and> (\<forall>r\<in>set (recordsOfCase c results). EndTime r \<le> EndTime p)"
    by (rule caseKeeps_latest)
next
  fix c p f
  assume two: "(recordsOfCase c results = [p, f] \<or> recordsOfCase c results = [f, p])
            \<and> Status p = ''passed'' \<and> Status f \<noteq> ''passed''"
  then have mem: "p \<in> set (recordsOfCase c results)" "f \<in> set (recordsOfCase c results)"
    by auto
  then have c: "c \<in> set keys" and notall: "\<not> list_all (\<lambda>r. Status r = ''passed'') results"
    using keys two by (auto simp: recordsOfCase_def list_all_iff)
  have fst_eq: "fst (processRun keys results)
      = (caseKeeps (recordsOfCase c results)
         \<and> list_all (\<lambda>c'. caseKeeps (recordsOfCase c' results)) (removeAll c keys))"
    using c notall list_all_removeAll [OF c, of "\<lambda>c'. caseKeeps (recordsOfCase c' results)"]
    by (auto simp: processRun_fst)
  {
    assume lt: "EndTime p < EndTime f"
    have "\<not> caseKeeps (recordsOfCase c results)"
    proof (rule later_failure_rejects [OF mem(2)])
      show "\<forall>q\<in>set (recordsOfCase c results). Status q = ''passed'' \<longrightarrow> EndTime q < EndTime f"
        using two lt by auto
      show "\<exists>q\<in>set (recordsOfCase c results). Status q = ''passed''"
        using two mem(1) by blast
    qed
    then show "\<not> fst (processRun keys results)"
      by (simp add: fst_eq)
  }
  {
    assume lt: "EndTime f < EndTime p"
    have "caseKeeps (recordsOfCase c results)"
      using two lt by (intro two_records_keep [of _ p f]) auto
    then show "fst (processRun keys results)
              = list_all (\<lambda>c'. caseKeeps (recordsOfCase c' results)) (removeAll c keys)"
      by (simp add: fst_eq)
  }
qed

theorem latest_wins_witness:
  "\<not> fst (processRun [1, 2]
       [mkResult 100 2 ''passed'' ''2024-05-01T08:00:00Z'',
        mkResult 100 1 ''passed'' ''2024-05-01T10:00:00Z'',
        mkResult 100 1 ''failed'' ''2024-05-01T11:00:00Z''])
   \<and> fst (processRun [1]
       [mkResult 200 1 ''passed'' ''2024-05-01T10:00:00Z'',
        mkResult 200 1 ''failed'' ''2024-05-01T09:00:00Z''])
   \<and> latestOverallStatus (caseOutcome (recordsOfCase 1
       [mkResult 200 1 ''passed'' ''2024-05-01T10:00:00Z'',
        mkResult 200 1 ''failed'' ''2024-05-01T09:00:00Z''])) = ''passed''"
proof -
  let ?rej = "[mkResult 100 2 ''passed'' ''2024-05-01T08:00:00Z'',
        mkResult 100 1 ''passed'' ''2024-05-01T10:00:00Z'',
        mkResult 100 1 ''failed'' ''2024-05-01T11:00:00Z'']"
  let ?kept = "[mkResult 200 1 ''passed'' ''2024-05-01T10:00:00Z'',
        mkResult 200 1 ''failed'' ''2024-05-01T09:00:00Z'']"
  have k1: "set [1, 2] = CaseID ` set ?rej" by auto
  have k2: "set [1] = CaseID ` set ?kept" by auto
  have a: "\<not> fst (processRun [1, 2] ?rej)"
    using latest_wins [OF k1, THEN conjunct2, rule_format, of 1
        "mkResult 100 1 ''passed'' ''2024-05-01T10:00:00Z''"
        "mkResult 100 1 ''failed'' ''2024-05-01T11:00:00Z''", THEN conjunct1]
    by (simp add: recordsOfCase_def)
  have b: "fst (processRun [1] ?kept)"
    using latest_wins [OF k2, THEN conjunct2, rule_format, of 1
        "mkResult 200 1 ''passed'' ''2024-05-01T10:00:00Z''"
        "mkResult 200 1 ''failed'' ''2024-05-01T09:00:00Z''", THEN conjunct2]
    by (simp add: recordsOfCase_def)
  have na: "\<not> list_all (\<lambda>r. Status r = ''passed'') ?kept" by simp
  have c: "latestOverallStatus (caseOutcome (recordsOfCase 1 ?kept)) = ''passed''"
    using latest_wins [OF k2, THEN conjunct1, rule_format, of 1] na b
    by (simp add: recordsOfCase_def)
  from a b c show ?thesis by blast
qed

text \<open>
  Claim C3 (all-passed shortcut). A run of the map all of whose records have status
  \<open>passed\<close> is in the output of \<open>processResults\<close>, whatever the end times of the
  records and whatever the iteration orders; no case of the run is examined.
\<close>

theorem all_passed_shortcut:
  assumes "runID \<in> set runOrder"
      and "\<forall>r\<in>set (runResults runID). Status r = ''passed''"
  shows "runID \<in> set (processResults runOrder caseOrder runResults)
       \<and> processRun (caseOrder runID) (runResults runID) = (True, [])"
proof -
  have ap: "list_all (\<lambda>r. Status r = ''passed'') (runResults runID)"
    using assms(2) by (simp add: list_all_iff)
  then have "processRun (caseOrder runID) (runResults runID) = (True, [])"
    by (simp add: processRun_def groupResults_eq)
  with assms(1) show ?thesis
    by (simp add: processResults_set)
qed

theorem all_passed_shortcut_witness:
  "300 \<in> set (processResults [300] (\<lambda>_. [1, 2])
      ((\<lambda>_. [])(300 := [mkResult 300 1 ''passed'' ''2024-05-02T10:00:00Z'',
                        mkResult 300 2 ''passed'' ''2024-05-01T10:00:00Z'',
                        mkResult 300 1 ''passed'' ''2024-05-01T23:00:00Z''])))"
  using all_passed_shortcut [of 300 "[300]"
      "(\<lambda>_. [])(300 := [mkResult 300 1 ''passed'' ''2024-05-02T10:00:00Z'',
                        mkResult 300 2 ''passed'' ''2024-05-01T10:00:00Z'',
                        mkResult 300 1 ''passed'' ''2024-05-01T23:00:00Z''])" "\<lambda>_. [1, 2]"]
  by simp

text \<open>
  Claim C4 (single-failure veto). A run with a case \<open>c\<close> that has records, none of
  them passing, is not in the output of \<open>processResults\<close>, whatever the other cases
  hold. The loop over the cases examines no case that \<open>range\<close> would visit after
  \<open>c\<close>: the cases examined form a prefix of the visiting order up to \<open>c\<close>.
\<close>

theorem single_failure_veto:
  assumes c: "c \<in> set (caseOrder runID)"
      and some: "recordsOfCase c (runResults runID) \<noteq> []"
      and nopass: "\<forall>r\<in>set (recordsOfCase c (runResults runID)). Status r \<noteq> ''passed''"
  shows "runID \<notin> set (processResults runOrder caseOrder runResults)
       \<and> (\<forall>pre post. caseOrder runID = pre @ c # post \<longrightarrow>
            prefix (snd (processRun (caseOrder runID) (runResults runID))) (pre @ [c]))"
proof -
  let ?rs = "runResults runID"
  from some obtain r where r: "r \<in> set (recordsOfCase c ?rs)"
    by (cases "recordsOfCase c ?rs") auto
  with nopass have "r \<in> set ?rs" "Status r \<noteq> ''passed''"
    by (auto simp: recordsOfCase_def)
  then have notall: "\<not> list_all (\<lambda>r. Status r = ''passed'') ?rs"
    by (auto simp: list_all_iff)
  have nk: "\<not> caseKeeps (recordsOfCase c ?rs)"
    using nopass by (simp add: caseKeeps_def Let_def hasPassed_iff)
  have "\<not> fst (processRun (caseOrder runID) ?rs)"
    using notall nk c by (auto simp: processRun_fst list_all_iff)
  then have a: "runID \<notin> set (processResults runOrder caseOrder runResults)"
    by (simp add: processResults_set)
  have b: "prefix (snd (processRun (caseOrder runID) ?rs)) (pre @ [c])"
    if "caseOrder runID = pre @ c # post" for pre post
  proof -
    have "prefix (snd (caseLoop (pre @ c # post) (\<lambda>k. recordsOfCase k ?rs) False []))
            ([] @ pre @ [c])"
      using nk by (intro caseLoop_stops) simp
    then show ?thesis
      using notall that by (simp add: processRun_def groupResults_eq)
  qed
  from a b show ?thesis by blast
qed

theorem single_failure_veto_witness:
  "400 \<notin> set (processResults [400] (\<lambda>_. [1, 2, 3])
      ((\<lambda>_. [])(400 := [mkResult 400 1 ''passed'' ''2024-05-01T10:00:00Z'',
                        mkResult 400 2 ''failed'' ''2024-05-01T10:00:00Z'',
                        mkResult 400 3 ''passed'' ''2024-05-01T10:00:00Z''])))
   \<and> prefix (snd (processRun [1, 2, 3]
        [mkResult 400 1 ''passed'' ''2024-05-01T10:00:00Z'',
         mkResult 400 2 ''failed'' ''2024-05-01T10:00:00Z'',
         mkResult 400 3 ''passed'' ''2024-05-01T10:00:00Z''])) [1, 2]"
proof -
  let ?rs = "[mkResult 400 1 ''passed'' ''2024-05-01T10:00:00Z'',
              mkResult 400 2 ''failed'' ''2024-05-01T10:00:00Z'',
              mkResult 400 3 ''passed'' ''2024-05-01T10:00:00Z'']"
  note t = single_failure_veto [of 2 "\<lambda>_. [1, 2, 3]" 400 "(\<lambda>_. [])(400 := ?rs)" "[400]"]
  have h: "400 \<notin> set (processResults [400] (\<lambda>_. [1, 2, 3]) ((\<lambda>_. [])(400 := ?rs)))
       \<and> (\<forall>pre post. [1, 2, 3] = pre @ 2 # post \<longrightarrow>
            prefix (snd (processRun [1, 2, 3] ?rs)) (pre @ [2]))"
    using t by (simp add: recordsOfCase_def)
  from h have "prefix (snd (processRun [1, 2, 3] ?rs)) ([1] @ [2])"
    by (elim conjE allE [of _ "[1::int]"] allE [of _ "[3::int]"]) simp
  with h show ?thesis by simp
qed

section \<open>Properties of the validation stage\<close>

lemma countCases_lookup:
  "lookupInt (countCases caseIDs m) c = lookupInt m c + int (count_list caseIDs c)"
  by (induction caseIDs arbitrary: m) (auto simp: increment_def lookupInt_def)

lemma tally_found:
  "lookupInt (foundCases (foldl (tallyResult runID) t results)) c
     = lookupInt (foundCases t) c + int (length (recordsOf runID c results))"
  by (induction results arbitrary: t)
     (auto simp: tallyResult_def increment_def lookupInt_def recordsOf_def)

lemma tally_passed:
  "lookupBool (passedCases (foldl (tallyResult runID) t results)) c
     = (if passedCases t c = None
        then recordsOf runID c results \<noteq> [] \<and> list_all (\<lambda>r. Status r = ''passed'') (recordsOf runID c results)
        else lookupBool (passedCases t) c \<and> list_all (\<lambda>r. Status r = ''passed'') (recordsOf runID c results))"
  by (induction results arbitrary: t)
     (auto simp: tallyResult_def lookupBool_def recordsOf_def)

lemma checkCounts_iff:
  "checkCounts keys caseCount t =
     list_all (\<lambda>c. lookupInt caseCount c \<le> lookupInt (foundCases t) c \<and> lookupBool (passedCases t) c) keys"
  by (induction keys) auto

lemma validateRunCases_iff:
  "validateRunCases keys runID caseIDs results =
     list_all (\<lambda>c. int (count_list caseIDs c) \<le> int (length (recordsOf runID c results))
                 \<and> recordsOf runID c results \<noteq> []
                 \<and> list_all (\<lambda>r. Status r = ''passed'') (recordsOf runID c results)) keys"
proof -
  have e: "lookupInt Map.empty c = 0" for c
    by (simp add: lookupInt_def)
  show ?thesis
    by (simp add: validateRunCases_def checkCounts_iff countCases_lookup tally_found
          tally_passed e)
qed

lemma foldl_tally2_latest_other:
  "lookupString (latestPassTime (foldl (tallyResult2 runID) t results)) c
     = foldl (\<lambda>best r. if Status r = ''passed'' \<and> (best = [] \<or> EndTime r > best) then EndTime r else best)
         (lookupString (latestPassTime t) c) (recordsOf runID c results)"
  by (induction results arbitrary: t)
     (auto simp: tallyResult2_def lookupString_def recordsOf_def Let_def)

lemma latestPass_snoc:
  "latestPass (rs @ [r]) = (if Status r = ''passed'' \<and> (latestPass rs = [] \<or> EndTime r > latestPass rs) then EndTime r else latestPass rs)"
  by (auto simp: latestPass_def)

lemma latestPass_upper:
  "r \<in> set rs \<Longrightarrow> Status r = ''passed'' \<Longrightarrow> EndTime r \<le> latestPass rs"
  by (induction rs rule: rev_induct) (auto simp: latestPass_snoc)

lemma latestPass_attained:
  "latestPass rs = [] \<or> (\<exists>r\<in>set rs. Status r = ''passed'' \<and> EndTime r = latestPass rs)"
proof (induction rs rule: rev_induct)
  case Nil
  show ?case by (simp add: latestPass_def)
next
  case (snoc x xs)
  then show ?case by (auto simp: latestPass_snoc)
qed

lemma checkLater_iff:
  "checkLater runID results latest =
     list_all (\<lambda>r. RunID r = runID \<and> Status r \<noteq> ''passed'' \<longrightarrow>
                 lookupString latest (CaseID r) = [] \<or> EndTime r \<le> lookupString latest (CaseID r)) results"
  by (induction results) auto

lemma validateRunCases2_iff:
  "validateRunCases2 runID caseIDs results =
     list_all (\<lambda>r. RunID r = runID \<and> Status r \<noteq> ''passed'' \<longrightarrow>
                 latestPass (recordsOf runID (CaseID r) results) = []
                 \<or> EndTime r \<le> latestPass (recordsOf runID (CaseID r) results)) results"
proof -
  have e: "lookupString Map.empty c = []" for c
    by (simp add: lookupString_def)
  show ?thesis
    unfolding latestPass_def
    by (simp add: validateRunCases2_def checkLater_iff foldl_tally2_latest_other e)
qed


lemma latest_exists:
  "xs \<noteq> [] \<Longrightarrow> \<exists>p\<in>set xs. \<forall>r\<in>set xs. EndTime r \<le> EndTime p"
proof (induction xs)
  case Nil
  then show ?case by simp
next
  case (Cons x xs)
  show ?case
  proof (cases "xs = []")
    case True
    then show ?thesis by simp
  next
    case False
    with Cons.IH obtain p where p: "p \<in> set xs" "\<forall>r\<in>set xs. EndTime r \<le> EndTime p"
      by blast
    show ?thesis
    proof (cases "EndTime x \<le> EndTime p")
      case True
      with p show ?thesis by auto
    next
      case False
      then have "\<forall>r\<in>set xs. EndTime r \<le> EndTime x"
        using p(2) by (meson le_cases order_trans)
      then show ?thesis by auto
    qed
  qed
qed

lemma latestPass_empty_iff:
  "latestPass rs = [] \<longleftrightarrow> (\<forall>p\<in>set rs. Status p = ''passed'' \<longrightarrow> EndTime p = [])"
proof
  assume e: "latestPass rs = []"
  show "\<forall>p\<in>set rs. Status p = ''passed'' \<longrightarrow> EndTime p = []"
  proof (intro ballI impI)
    fix p assume "p \<in> set rs" "Status p = ''passed''"
    then have "EndTime p \<le> latestPass rs" by (rule latestPass_upper)
    with e show "EndTime p = []" by simp
  qed
next
  assume a: "\<forall>p\<in>set rs. Status p = ''passed'' \<longrightarrow> EndTime p = []"
  from latestPass_attained [of rs] show "latestPass rs = []"
  proof
    assume "latestPass rs = []" then show ?thesis .
  next
    assume "\<exists>r\<in>set rs. Status r = ''passed'' \<and> EndTime r = latestPass rs"
    with a show ?thesis by auto
  qed
qed

lemma latestPass_bound_iff:
  "(latestPass rs = [] \<or> t \<le> latestPass rs) \<longleftrightarrow>
     ((\<forall>p\<in>set rs. Status p = ''passed'' \<longrightarrow> EndTime p = [])
      \<or> (\<exists>p\<in>set rs. Status p = ''passed'' \<and> t \<le> EndTime p))"
proof (cases "latestPass rs = []")
  case True
  then show ?thesis by (simp add: latestPass_empty_iff [symmetric])
next
  case False
  with latestPass_attained [of rs] obtain r where r: "r \<in> set rs" "Status r = ''passed''"
      "EndTime r = latestPass rs" by blast
  have "t \<le> latestPass rs \<longleftrightarrow> (\<exists>p\<in>set rs. Status p = ''passed'' \<and> t \<le> EndTime p)"
  proof
    assume "t \<le> latestPass rs"
    with r show "\<exists>p\<in>set rs. Status p = ''passed'' \<and> t \<le> EndTime p" by auto
  next
    assume "\<exists>p\<in>set rs. Status p = ''passed'' \<and> t \<le> EndTime p"
    then obtain p where "p \<in> set rs" "Status p = ''passed''" "t \<le> EndTime p" by blast
    then show "t \<le> latestPass rs"
      using latestPass_upper [of p rs] by simp
  qed
  with False show ?thesis
    by (simp add: latestPass_empty_iff [symmetric])
qed

text \<open>
  Claim C2 (validation cross-check). \<open>keys\<close> is any order in which \<open>range\<close> may visit
  the distinct case IDs of the remote list. The variant that counts does what the
  claim says: it confirms a run exactly when, for each case ID of the remote list, the
  log holds at least as many records of that run and case as the list has occurrences
  and all of them are passing; then a passing record of the case has an end time no
  record of the case exceeds. The variant that compares end times does not: what it
  returns is fixed by the local records alone. It confirms a run exactly when every
  non-passing record of the run is, within its case, either not later than some
  passing record or in a case whose passing records all have an empty end time; the
  remote list, and the counts the variant still keeps, have no part in it.
\<close>

theorem validation_cross_check:
  assumes keys: "set keys = set caseIDs"
  shows
    "(validateRunCases keys runID caseIDs results \<longleftrightarrow>
        (\<forall>c\<in>set caseIDs.
            count_list caseIDs c \<le> length (recordsOf runID c results)
          \<and> (\<forall>r\<in>set (recordsOf runID c results). Status r = ''passed'')))
   \<and> (validateRunCases keys runID caseIDs results \<longrightarrow>
        (\<forall>c\<in>set caseIDs. \<exists>p\<in>set (recordsOf runID c results).
            Status p = ''passed'' \<and> (\<forall>r\<in>set (recordsOf runID c results). EndTime r \<le> EndTime p)))
   \<and> (validateRunCases2 runID caseIDs results \<longleftrightarrow>
        (\<forall>f\<in>set results. RunID f = runID \<and> Status f \<noteq> ''passed'' \<longrightarrow>
            (\<forall>p\<in>set (recordsOf runID (CaseID f) results). Status p = ''passed'' \<longrightarrow> EndTime p = [])
          \<or> (\<exists>p\<in>set (recordsOf runID (CaseID f) results).
                Status p = ''passed'' \<and> EndTime f \<le> EndTime p)))"
proof (intro conjI)
  have pos: "0 < count_list caseIDs c" if "c \<in> set caseIDs" for c
    using that count_list_0_iff [of caseIDs c] by simp
  show a: "validateRunCases keys runID caseIDs results \<longleftrightarrow>
        (\<forall>c\<in>set caseIDs.
            count_list caseIDs c \<le> length (recordsOf runID c results)
          \<and> (\<forall>r\<in>set (recordsOf runID c results). Status r = ''passed''))"
  proof -
    have ne: "recordsOf runID c results \<noteq> []"
      if "c \<in> set caseIDs" "count_list caseIDs c \<le> length (recordsOf runID c results)" for c
      using pos [OF that(1)] that(2) by auto
    show ?thesis
      using ne by (auto simp: validateRunCases_iff list_all_iff keys)
  qed
  show "validateRunCases keys runID caseIDs results \<longrightarrow>
        (\<forall>c\<in>set caseIDs. \<exists>p\<in>set (recordsOf runID c results).
            Status p = ''passed'' \<and> (\<forall>r\<in>set (recordsOf runID c results). EndTime r \<le> EndTime p))"
  proof (intro impI ballI)
    fix c
    assume v: "validateRunCases keys runID caseIDs results" and c: "c \<in> set caseIDs"
    from v c have cnt: "count_list caseIDs c \<le> length (recordsOf runID c results)"
      and ap: "\<forall>r\<in>set (recordsOf runID c results). Status r = ''passed''"
      using a by auto
    from cnt pos [OF c] have "recordsOf runID c results \<noteq> []" by auto
    then obtain p where "p \<in> set (recordsOf runID c results)"
        "\<forall>r\<in>set (recordsOf runID c results). EndTime r \<le> EndTime p"
      using latest_exists by blast
    with ap show "\<exists>p\<in>set (recordsOf runID c results).
            Status p = ''passed'' \<and> (\<forall>r\<in>set (recordsOf runID c results). EndTime r \<le> EndTime p)"
      by blast
  qed
  show "validateRunCases2 runID caseIDs results \<longleftrightarrow>
        (\<forall>f\<in>set results. RunID f = runID \<and> Status f \<noteq> ''passed'' \<longrightarrow>
            (\<forall>p\<in>set (recordsOf runID (CaseID f) results). Status p = ''passed'' \<longrightarrow> EndTime p = [])
          \<or> (\<exists>p\<in>set (recordsOf runID (CaseID f) results).
                Status p = ''passed'' \<and> EndTime f \<le> EndTime p))"
    by (simp add: validateRunCases2_iff list_all_iff latestPass_bound_iff)
qed

theorem validation_cross_check_witness:
  "validateRunCases [7] 1 [7, 7]
     [mkResult 1 7 ''passed'' ''2024-05-01T10:00:00Z'',
      mkResult 1 7 ''passed'' ''2024-05-01T11:00:00Z'']
   \<and> \<not> validateRunCases [7] 1 [7, 7] [mkResult 1 7 ''passed'' ''2024-05-01T10:00:00Z'']
   \<and> \<not> validateRunCases2 1 [7]
       [mkResult 1 7 ''passed'' ''2024-05-01T10:00:00Z'',
        mkResult 1 7 ''failed'' ''2024-05-01T11:00:00Z'']"
proof -
  have k: "set [7] = set [7, 7::int]" by simp
  have a: "validateRunCases [7] 1 [7, 7]
     [mkResult 1 7 ''passed'' ''2024-05-01T10:00:00Z'',
      mkResult 1 7 ''passed'' ''2024-05-01T11:00:00Z'']"
    using validation_cross_check [OF k, of 1
       "[mkResult 1 7 ''passed'' ''2024-05-01T10:00:00Z'',
         mkResult 1 7 ''passed'' ''2024-05-01T11:00:00Z'']", THEN conjunct1]
    by (simp add: recordsOf_def)
  have b: "\<not> validateRunCases [7] 1 [7, 7] [mkResult 1 7 ''passed'' ''2024-05-01T10:00:00Z'']"
    using validation_cross_check [OF k, of 1
       "[mkResult 1 7 ''passed'' ''2024-05-01T10:00:00Z'']", THEN conjunct1]
    by (simp add: recordsOf_def)
  have k1: "set [7] = set [7::int]" by simp
  have c: "\<not> validateRunCases2 1 [7]
       [mkResult 1 7 ''passed'' ''2024-05-01T10:00:00Z'',
        mkResult 1 7 ''failed'' ''2024-05-01T11:00:00Z'']"
    using validation_cross_check [OF k1, of 1
       "[mkResult 1 7 ''passed'' ''2024-05-01T10:00:00Z'',
         mkResult 1 7 ''failed'' ''2024-05-01T11:00:00Z'']", THEN conjunct2, THEN conjunct2]
    by (simp add: recordsOf_def)
  from a b c show ?thesis by blast
qed

text \<open>
  The defect behind claim C2, at its failing inputs. The variant that compares end
  times confirms run 1 when the remote list names case 7 twice and the log holds one
  record of it, when the only record of case 7 is a failed one, and when the log
  holds no record at all; the variant that counts rejects the run each time.
\<close>

theorem validateRunCases2_failing_input:
  "validateRunCases2 1 [7, 7] [mkResult 1 7 ''passed'' ''2024-05-01T10:00:00Z'']
   \<and> length (recordsOf 1 7 [mkResult 1 7 ''passed'' ''2024-05-01T10:00:00Z''])
       < count_list [7, 7] 7
   \<and> \<not> validateRunCases [7] 1 [7, 7] [mkResult 1 7 ''passed'' ''2024-05-01T10:00:00Z'']
   \<and> validateRunCases2 1 [7] [mkResult 1 7 ''failed'' ''2024-05-01T10:00:00Z'']
   \<and> \<not> validateRunCases [7] 1 [7] [mkResult 1 7 ''failed'' ''2024-05-01T10:00:00Z'']
   \<and> validateRunCases2 1 [7] []
   \<and> \<not> validateRunCases [7] 1 [7] []"
  by (simp add: validateRunCases2_def tallyResult2_def validateRunCases_def tallyResult_def
        increment_def lookupInt_def lookupBool_def lookupString_def recordsOf_def Let_def)

section \<open>Properties of the retrying executor and of the completion call\<close>

lemma isRetryableError_iff:
  "isRetryableError err statusCode \<longleftrightarrow> err \<noteq> None \<or> statusCode \<in> {429, 500, 502, 503, 504}"
  by (simp add: isRetryableError_def)

lemma retryFrom_calls_upper:
  "length (snd (retryFrom config world attempt resp lastErr calls))
     \<le> length calls + nat (MaxRetries config + 1 - attempt)"
proof (induction config world attempt resp lastErr calls rule: retryFrom.induct)
  case (1 config world attempt resp lastErr calls)
  show ?case
  proof (cases "attempt \<le> MaxRetries config")
    case False
    then show ?thesis by (subst retryFrom.simps) simp
  next
    case True
    show ?thesis
    proof (cases "world (nat attempt)")
      case (Failed err)
      with True "1.IH"(1) [OF True Failed] show ?thesis
        by (subst retryFrom.simps) (simp add: nat_diff_distrib)
    next
      case (Answered r)
      show ?thesis
      proof (cases "(200 \<le> StatusCode r \<and> StatusCode r < 300) \<or> \<not> isRetryableError None (StatusCode r)")
        case True
        with \<open>attempt \<le> MaxRetries config\<close> Answered show ?thesis
          by (subst retryFrom.simps) auto
      next
        case False
        with \<open>attempt \<le> MaxRetries config\<close> Answered "1.IH"(2) [OF \<open>attempt \<le> MaxRetries config\<close> Answered]
        show ?thesis
          by (subst retryFrom.simps) auto
      qed
    qed
  qed
qed

lemma retryFrom_calls_lower:
  "attempt \<le> MaxRetries config \<Longrightarrow>
     length calls + 1 \<le> length (snd (retryFrom config world attempt resp lastErr calls))"
proof (induction config world attempt resp lastErr calls rule: retryFrom.induct)
  case (1 config world attempt resp lastErr calls)
  note le = \<open>attempt \<le> MaxRetries config\<close>
  show ?case
  proof (cases "world (nat attempt)")
    case (Failed err)
    show ?thesis
    proof (cases "attempt + 1 \<le> MaxRetries config")
      case True
      with "1.IH"(1) [OF le Failed] le Failed show ?thesis
        by (subst retryFrom.simps) simp
    next
      case False
      with le Failed show ?thesis
        by (subst retryFrom.simps, simp, subst retryFrom.simps, simp)
    qed
  next
    case (Answered r)
    show ?thesis
    proof (cases "(200 \<le> StatusCode r \<and> StatusCode r < 300) \<or> \<not> isRetryableError None (StatusCode r)")
      case True
      with le Answered show ?thesis
        by (subst retryFrom.simps) auto
    next
      case False
      show ?thesis
      proof (cases "attempt + 1 \<le> MaxRetries config")
        case True
        with "1.IH"(2) [OF le Answered] False le Answered show ?thesis
          by (subst retryFrom.simps) auto
      next
        case nle: False
        with False le Answered show ?thesis
          by (subst retryFrom.simps, simp, subst retryFrom.simps, simp)
      qed
    qed
  qed
qed

lemma retryFrom_retry:
  assumes "attempt \<le> MaxRetries config" "retryableFailure (world (nat attempt))"
  shows "retryFrom config world attempt resp lastErr calls
     = retryFrom config world (attempt + 1) (respAfter (world (nat attempt)))
         (lastErrAfter (world (nat attempt))) (calls @ [Timeout httpClient])"
  using assms
  by (subst retryFrom.simps)
     (auto simp: retryableFailure_def respAfter_def lastErrAfter_def split: DoResult.splits)

lemma retryFrom_exhaust:
  assumes "\<forall>k. attempt \<le> k \<and> k \<le> MaxRetries config \<longrightarrow> retryableFailure (world (nat k))"
      and "attempt \<le> MaxRetries config" "0 \<le> attempt"
  shows "fst (retryFrom config world attempt resp lastErr calls)
     = Failure (respAfter (world (nat (MaxRetries config))))
         (AttemptsFailed (MaxRetries config + 1) (lastErrAfter (world (nat (MaxRetries config)))))"
  using assms
proof (induction config world attempt resp lastErr calls rule: retryFrom.induct)
  case (1 config world attempt resp lastErr calls)
  have rf: "retryableFailure (world (nat attempt))"
    using "1.prems" by simp
  have step: "retryFrom config world attempt resp lastErr calls
     = retryFrom config world (attempt + 1) (respAfter (world (nat attempt)))
         (lastErrAfter (world (nat attempt))) (calls @ [Timeout httpClient])"
    using "1.prems"(2) rf by (rule retryFrom_retry)
  show ?case
  proof (cases "attempt + 1 \<le> MaxRetries config")
    case False
    with "1.prems" have "attempt = MaxRetries config" by simp
    then show ?thesis
      unfolding step by (subst retryFrom.simps) simp
  next
    case True
    have all: "\<forall>k. attempt + 1 \<le> k \<and> k \<le> MaxRetries config \<longrightarrow> retryableFailure (world (nat k))"
      using "1.prems"(1) by simp
    show ?thesis
    proof (cases "world (nat attempt)")
      case (Failed err)
      from "1.IH"(1) [OF "1.prems"(2) Failed all True] "1.prems"(3)
      show ?thesis
        unfolding step by (simp add: respAfter_def lastErrAfter_def Failed)
    next
      case (Answered r)
      from rf Answered have a: "\<not> (200 \<le> StatusCode r \<and> StatusCode r < 300)"
        and b: "\<not> \<not> isRetryableError None (StatusCode r)"
        by (simp_all add: retryableFailure_def)
      from "1.IH"(2) [OF "1.prems"(2) Answered a b all True] "1.prems"(3)
      show ?thesis
        unfolding step by (simp add: respAfter_def lastErrAfter_def Answered)
    qed
  qed
qed

text \<open>
  Claim C5 (retry classification). \<open>isRetryableError\<close> accepts an error of the call
  and the status codes 429, 500, 502, 503 and 504, and nothing else; so the loop goes
  on after a call exactly when the call failed or was answered with one of these
  codes. From any state of the loop: a response with another status outside 200..299
  is returned at once with the error for a non-retryable status, after this one call;
  a failure the loop goes on after, met while retries remain, is followed by the next
  attempt, so at least two calls are made from there.
\<close>

theorem retry_classification:
  "(isRetryableError err statusCode \<longleftrightarrow> err \<noteq> None \<or> statusCode \<in> {429, 500, 502, 503, 504})
   \<and> (retryableFailure answer \<longleftrightarrow>
        (\<exists>e. answer = Failed e)
        \<or> (\<exists>r. answer = Answered r \<and> StatusCode r \<in> {429, 500, 502, 503, 504}))
   \<and> (attempt \<le> MaxRetries config \<and> world (nat attempt) = Answered r
        \<and> \<not> (200 \<le> StatusCode r \<and> StatusCode r < 300)
        \<and> StatusCode r \<notin> {429, 500, 502, 503, 504}
      \<longrightarrow> retryFrom config world attempt resp lastErr calls
            = (Failure (Some r) (NonRetryableHTTP (StatusCode r)), calls @ [Timeout httpClient]))
   \<and> (attempt < MaxRetries config \<and> retryableFailure (world (nat attempt))
      \<longrightarrow> retryFrom config world attempt resp lastErr calls
            = retryFrom config world (attempt + 1) (respAfter (world (nat attempt)))
                (lastErrAfter (world (nat attempt))) (calls @ [Timeout httpClient])
          \<and> length calls + 2 \<le> length (snd (retryFrom config world attempt resp lastErr calls)))"
proof (intro conjI impI)
  show "isRetryableError err statusCode \<longleftrightarrow> err \<noteq> None \<or> statusCode \<in> {429, 500, 502, 503, 504}"
    by (rule isRetryableError_iff)
  show "retryableFailure answer \<longleftrightarrow>
        (\<exists>e. answer = Failed e)
        \<or> (\<exists>r. answer = Answered r \<and> StatusCode r \<in> {429, 500, 502, 503, 504})"
    by (cases answer) (auto simp: retryableFailure_def isRetryableError_def)
next
  assume "attempt \<le> MaxRetries config \<and> world (nat attempt) = Answered r
        \<and> \<not> (200 \<le> StatusCode r \<and> StatusCode r < 300)
        \<and> StatusCode r \<notin> {429, 500, 502, 503, 504}"
  then show "retryFrom config world attempt resp lastErr calls
            = (Failure (Some r) (NonRetryableHTTP (StatusCode r)), calls @ [Timeout httpClient])"
    by (subst retryFrom.simps) (simp add: isRetryableError_def)
next
  assume a: "attempt < MaxRetries config \<and> retryableFailure (world (nat attempt))"
  then have le: "attempt \<le> MaxRetries config" and rf: "retryableFailure (world (nat attempt))"
    by simp_all
  show step: "retryFrom config world attempt resp lastErr calls
            = retryFrom config world (attempt + 1) (respAfter (world (nat attempt)))
                (lastErrAfter (world (nat attempt))) (calls @ [Timeout httpClient])"
    using le rf by (rule retryFrom_retry)
  have "attempt + 1 \<le> MaxRetries config" using a by simp
  then have "length (calls @ [Timeout httpClient]) + 1
      \<le> length (snd (retryFrom config world (attempt + 1) (respAfter (world (nat attempt)))
                (lastErrAfter (world (nat attempt))) (calls @ [Timeout httpClient])))"
    by (rule retryFrom_calls_lower)
  then show "length calls + 2 \<le> length (snd (retryFrom config world attempt resp lastErr calls))"
    unfolding step by simp
qed

theorem retry_classification_witness:
  "retryableHTTPRequest (\<lambda>k. Answered status404) completionRetryConfig
     = (Failure (Some status404) (NonRetryableHTTP 404), [Timeout httpClient])
   \<and> 2 \<le> length (snd (retryableHTTPRequest (\<lambda>k. Answered status503) completionRetryConfig))"
proof -
  have a: "retryFrom completionRetryConfig (\<lambda>k. Answered status404) 0 None None []
      = (Failure (Some status404) (NonRetryableHTTP 404), [] @ [Timeout httpClient])"
    using retry_classification [of None 0 "Answered status404" 0 completionRetryConfig
        "\<lambda>k. Answered status404" status404 None None "[]",
        THEN conjunct2, THEN conjunct2, THEN conjunct1]
    by (simp add: completionRetryConfig_def)
  have pre: "0 < MaxRetries completionRetryConfig
      \<and> retryableFailure ((\<lambda>k. Answered status503) (nat 0))"
    by (simp add: completionRetryConfig_def retryableFailure_def isRetryableError_def)
  have b: "length ([] :: Duration list) + 2
      \<le> length (snd (retryFrom completionRetryConfig (\<lambda>k. Answered status503) 0 None None []))"
    by (rule retry_classification [of None 0 "Answered status503" 0 completionRetryConfig
        "\<lambda>k. Answered status503" status503 None None "[]",
        THEN conjunct2, THEN conjunct2, THEN conjunct2, THEN mp, OF pre, THEN conjunct2])
  from a b show ?thesis
    by (simp add: retryableHTTPRequest_def)
qed

text \<open>
  Claim C6 (retry exhaustion). When every attempt, the first and the \<open>MaxRetries\<close>
  retries, fails in a way the loop goes on after, the executor returns an error that
  holds the number of attempts and \<open>lastErr\<close> as the last call left it: the error of
  the call when the last attempt failed in transport, and \<open>nil\<close> when it was answered
  with a status the executor retries. The status code itself is in the response
  returned beside the error, not in the error.
\<close>

theorem exhaustion_result:
  assumes "0 \<le> MaxRetries config"
      and "\<forall>k. 0 \<le> k \<and> k \<le> MaxRetries config \<longrightarrow> retryableFailure (world (nat k))"
  shows "fst (retryableHTTPRequest world config)
     = Failure (respAfter (world (nat (MaxRetries config))))
         (AttemptsFailed (MaxRetries config + 1) (lastErrAfter (world (nat (MaxRetries config)))))"
  unfolding retryableHTTPRequest_def
  using assms(2) assms(1) by (intro retryFrom_exhaust) simp_all

theorem exhaustion_result_witness:
  "fst (retryableHTTPRequest (\<lambda>k. Answered status503) completionRetryConfig)
     = Failure (Some status503) (AttemptsFailed 3 None)
   \<and> fst (retryableHTTPRequest (\<lambda>k. if k = 2 then Failed ''timeout'' else Answered status503)
        completionRetryConfig)
     = Failure None (AttemptsFailed 3 (Some ''timeout''))"
proof -
  have a: "fst (retryableHTTPRequest (\<lambda>k. Answered status503) completionRetryConfig)
     = Failure (Some status503) (AttemptsFailed 3 None)"
    using exhaustion_result [of completionRetryConfig "\<lambda>k. Answered status503"]
    by (simp add: completionRetryConfig_def retryableFailure_def isRetryableError_def
          respAfter_def lastErrAfter_def)
  have b: "fst (retryableHTTPRequest (\<lambda>k. if k = 2 then Failed ''timeout'' else Answered status503)
        completionRetryConfig)
     = Failure None (AttemptsFailed 3 (Some ''timeout''))"
    using exhaustion_result [of completionRetryConfig
        "\<lambda>k. if k = 2 then Failed ''timeout'' else Answered status503"]
    by (simp add: completionRetryConfig_def retryableFailure_def isRetryableError_def
          respAfter_def lastErrAfter_def)
  from a b show ?thesis by simp
qed

lemma completeRun_calls:
  "length (snd (completeRun requestError world)) \<le> 3"
proof (cases requestError)
  case True
  then show ?thesis by (simp add: completeRun_def)
next
  case False
  have "length (snd (retryableHTTPRequest world completionRetryConfig))
      \<le> length ([] :: Duration list) + nat (MaxRetries completionRetryConfig + 1 - 0)"
    unfolding retryableHTTPRequest_def by (rule retryFrom_calls_upper)
  then have "length (snd (retryableHTTPRequest world completionRetryConfig)) \<le> 3"
    by (simp add: completionRetryConfig_def)
  with False show ?thesis
    by (auto simp: completeRun_def split: prod.splits Outcome.splits option.splits)
qed

text \<open>
  Claim C7 (completion profile), as amended. The configuration of the completion call
  has fewer retries and a shorter request timeout than \<open>defaultRetryConfig\<close>, the
  configuration of the fetch of the run list in the same package; a completion call
  makes at most \<open>MaxRetries + 1\<close> calls, three, and none when its request cannot be
  built, where it returns \<open>false\<close>. The fetch of the validation stage makes exactly one
  call, with no retry, when its request is built, and panics before any call when it
  is not; so does the completion call of the variants without the executor.
\<close>

theorem completion_profile:
  "MaxRetries completionRetryConfig < MaxRetries defaultRetryConfig
   \<and> RequestTimeout completionRetryConfig < RequestTimeout defaultRetryConfig
   \<and> length (snd (completeRun requestError world)) \<le> nat (MaxRetries completionRetryConfig + 1)
   \<and> completeRun True world = (False, [])
   \<and> snd (fetchCasesForRunID False answer) = [Timeout DefaultClient]
   \<and> fetchCasesForRunID True answer = (Inl NilRequest, [])
   \<and> snd (completeRunOnce False answer') = [Timeout DefaultClient]
   \<and> completeRunOnce True answer' = (Inl NilRequest, [])"
proof (intro conjI)
  show "MaxRetries completionRetryConfig < MaxRetries defaultRetryConfig"
    by (simp add: completionRetryConfig_def defaultRetryConfig_def)
  show "RequestTimeout completionRetryConfig < RequestTimeout defaultRetryConfig"
    by (simp add: completionRetryConfig_def defaultRetryConfig_def Second_def Millisecond_def)
  show "length (snd (completeRun requestError world)) \<le> nat (MaxRetries completionRetryConfig + 1)"
    using completeRun_calls [of requestError world] by (simp add: completionRetryConfig_def)
  show "completeRun True world = (False, [])"
    by (simp add: completeRun_def)
  show "snd (fetchCasesForRunID False answer) = [Timeout DefaultClient]"
    by (simp add: fetchCasesForRunID_def split: DoResult.splits option.splits)
  show "fetchCasesForRunID True answer = (Inl NilRequest, [])"
    by (simp add: fetchCasesForRunID_def)
  show "snd (completeRunOnce False answer') = [Timeout DefaultClient]"
    by (simp add: completeRunOnce_def split: DoResult.splits option.splits)
  show "completeRunOnce True answer' = (Inl NilRequest, [])"
    by (simp add: completeRunOnce_def)
qed

theorem completion_profile_witness:
  "length (snd (completeRun False (\<lambda>k. Answered status503))) \<le> 3
   \<and> length (snd (fetchCasesForRunID False (Failed ''connection refused''))) = 1
   \<and> fst (fetchCasesForRunID True (Failed ''connection refused'')) = Inl NilRequest"
  using completion_profile [of False "\<lambda>k. Answered status503" "Failed ''connection refused''"
      "Failed ''connection refused''"]
  by (simp add: completionRetryConfig_def)

text \<open>
  Claim C7 as stated fails. When both requests are built and the connection is refused
  at every call, \<open>completeRun\<close> calls three times and \<open>fetchCasesForRunID\<close> once: the
  completion call retries twice, the validation call never. Each call of the completion goes through
  \<open>httpClient\<close>, the call of the validation through \<open>http.DefaultClient\<close>.
\<close>

theorem completion_profile_counterexample:
  "snd (completeRun False (\<lambda>k. Failed ''connection refused''))
     = [30 * Second, 30 * Second, 30 * Second]
   \<and> snd (fetchCasesForRunID False (Failed ''connection refused'')) = [0]"
  by (simp add: completeRun_def retryableHTTPRequest_def retryFrom.simps completionRetryConfig_def
        fetchCasesForRunID_def httpClient_def defaultRetryConfig_def DefaultClient_def)

section \<open>Properties of the stage outputs\<close>

lemma mset_filter_remove1:
  "x \<in> set xs \<Longrightarrow> mset (filter P xs) = mset (filter P (remove1 x xs)) + (if P x then {#x#} else {#})"
  by (induction xs) auto

lemma matchStep_inFlight:
  "matchStep confirmed e st = Some st' \<Longrightarrow> inFlight confirmed st' = inFlight confirmed st"
  by (cases e)
     (auto simp: matchStep_def inFlight_def mset_filter_remove1 split: list.splits if_splits)

lemma runSchedule_inFlight:
  "runSchedule confirmed es st = Some st' \<Longrightarrow> inFlight confirmed st' = inFlight confirmed st"
proof (induction es arbitrary: st)
  case Nil
  then show ?case by simp
next
  case (Cons e es)
  then obtain st1 where s1: "matchStep confirmed e st = Some st1"
      and s2: "runSchedule confirmed es st1 = Some st'"
    by (auto split: option.splits)
  from Cons.IH [OF s2] matchStep_inFlight [OF s1] show ?case by simp
qed

lemma MatchResults_mset:
  assumes "MatchResults apiToken projectCode filteredTxt confirmed schedule = Some out"
  shows "mset out = mset (filter confirmed (readRunIDs filteredTxt))"
proof -
  from assms obtain st where
    r: "runSchedule confirmed schedule
          \<lparr>pending = readRunIDs filteredTxt, running = [], validRunIDs = []\<rparr> = Some st"
    and fin: "pending st = []" "running st = []" and out: "out = validRunIDs st"
    by (auto simp: MatchResults_def split: option.splits if_splits)
  from runSchedule_inFlight [OF r] fin out show ?thesis
    by (simp add: inFlight_def)
qed

lemma runSchedule_sequential:
  "runSchedule confirmed (sequential runIDs) \<lparr>pending = runIDs, running = [], validRunIDs = acc\<rparr>
     = Some \<lparr>pending = [], running = [], validRunIDs = acc @ filter confirmed runIDs\<rparr>"
  by (induction runIDs arbitrary: acc) (auto simp: matchStep_def)

lemma MatchResults_sequential:
  assumes "apiToken \<noteq> []" "projectCode \<noteq> []"
  shows "MatchResults apiToken projectCode filteredTxt confirmed
           (sequential (readRunIDs filteredTxt))
         = Some (filter confirmed (readRunIDs filteredTxt))"
  using assms by (simp add: MatchResults_def runSchedule_sequential)

text \<open>
  Claim C8 (stage outputs), as amended. The list \<open>processResults\<close> returns is sorted in
  increasing order and holds the selected runs. The list \<open>MatchResults\<close> writes holds,
  for any complete interleaving, the confirmed run IDs of its input, each as often as
  the input names it; when every validation finishes before the next starts they are
  in the order of the input.
\<close>

theorem stage_outputs:
  "sorted (processResults runOrder caseOrder runResults)
   \<and> set (processResults runOrder caseOrder runResults)
       = {runID \<in> set runOrder. fst (processRun (caseOrder runID) (runResults runID))}
   \<and> (MatchResults apiToken projectCode filteredTxt confirmed schedule = Some out \<longrightarrow>
         mset out = mset (filter confirmed (readRunIDs filteredTxt)))
   \<and> (apiToken \<noteq> [] \<and> projectCode \<noteq> [] \<longrightarrow>
         MatchResults apiToken projectCode filteredTxt confirmed
             (sequential (readRunIDs filteredTxt))
           = Some (filter confirmed (readRunIDs filteredTxt)))"
  using MatchResults_mset [of apiToken projectCode filteredTxt confirmed schedule out]
  by (simp add: processResults_def selectLoop_set MatchResults_sequential)

lemma readRunIDs_two:
  "readRunIDs (Some ''1,2'') = [1, 2]"
  by code_simp

lemma confirmed_twoRuns:
  "confirmedRun (\<lambda>runID. inProgress [5]) (\<lambda>runID. [5]) twoRuns 1"
  "confirmedRun (\<lambda>runID. inProgress [5]) (\<lambda>runID. [5]) twoRuns 2"
  by (simp_all add: confirmedRun_def fetchCasesForRunID_def validateRunCases_def
        tallyResult_def increment_def lookupInt_def lookupBool_def)

theorem stage_outputs_witness:
  "sorted (processResults [2, 1] (\<lambda>runID. [5])
      ((\<lambda>runID. [])(1 := [mkResult 1 5 ''passed'' ''2024-05-01T10:00:00Z''],
                     2 := [mkResult 2 5 ''passed'' ''2024-05-01T10:05:00Z''])))
   \<and> mset [2, 1]
       = mset (filter (confirmedRun (\<lambda>runID. inProgress [5]) (\<lambda>runID. [5]) twoRuns)
           (readRunIDs (Some ''1,2'')))
   \<and> MatchResults ''token'' ''DEMO'' (Some ''1,2'')
        (confirmedRun (\<lambda>runID. inProgress [5]) (\<lambda>runID. [5]) twoRuns)
        (sequential (readRunIDs (Some ''1,2''))) = Some [1, 2]"
proof -
  let ?confirmed = "confirmedRun (\<lambda>runID. inProgress [5]) (\<lambda>runID. [5]) twoRuns"
  have run: "MatchResults ''token'' ''DEMO'' (Some ''1,2'') ?confirmed
      [Spawn, Spawn, Finish 2, Finish 1] = Some [2, 1]"
    by (simp add: MatchResults_def matchStep_def confirmed_twoRuns readRunIDs_two)
  note t = stage_outputs [of "[2, 1]" "\<lambda>runID. [5]"
      "(\<lambda>runID. [])(1 := [mkResult 1 5 ''passed'' ''2024-05-01T10:00:00Z''],
                     2 := [mkResult 2 5 ''passed'' ''2024-05-01T10:05:00Z''])"
      "''token''" "''DEMO''" "Some ''1,2''" ?confirmed "[Spawn, Spawn, Finish 2, Finish 1]"
      "[2, 1]"]
  from t have a: "sorted (processResults [2, 1] (\<lambda>runID. [5])
      ((\<lambda>runID. [])(1 := [mkResult 1 5 ''passed'' ''2024-05-01T10:00:00Z''],
                     2 := [mkResult 2 5 ''passed'' ''2024-05-01T10:05:00Z''])))"
    by (rule conjunct1)
  from t run have b: "mset [2, 1] = mset (filter ?confirmed (readRunIDs (Some ''1,2'')))"
    by blast
  from t have "MatchResults ''token'' ''DEMO'' (Some ''1,2'') ?confirmed
        (sequential (readRunIDs (Some ''1,2'')))
      = Some (filter ?confirmed (readRunIDs (Some ''1,2'')))"
    by simp
  then have c: "MatchResults ''token'' ''DEMO'' (Some ''1,2'') ?confirmed
        (sequential (readRunIDs (Some ''1,2''))) = Some [1, 2]"
    by (simp add: readRunIDs_two confirmed_twoRuns)
  from a b c show ?thesis by blast
qed

text \<open>
  Claim C8 as stated fails for the validation stage. Runs 1 and 2 are both confirmed.
  When the validation of run 2 finishes first, \<open>MatchResults\<close> writes 2 before 1; when
  that of run 1 finishes first, 1 before 2.
\<close>

theorem stage_outputs_counterexample:
  "MatchResults ''token'' ''DEMO'' (Some ''1,2'')
      (confirmedRun (\<lambda>runID. inProgress [5]) (\<lambda>runID. [5]) twoRuns)
      [Spawn, Spawn, Finish 2, Finish 1] = Some [2, 1]
   \<and> \<not> sorted [2, 1 :: int]
   \<and> MatchResults ''token'' ''DEMO'' (Some ''1,2'')
      (confirmedRun (\<lambda>runID. inProgress [5]) (\<lambda>runID. [5]) twoRuns)
      [Spawn, Spawn, Finish 1, Finish 2] = Some [1, 2]"
  by (simp add: MatchResults_def matchStep_def confirmed_twoRuns readRunIDs_two)

section \<open>Properties of the ledger and of the hand-off files\<close>









subsection \<open>White space\<close>
















subsection \<open>The scan of one part\<close>














subsection \<open>The claim about the hand-off files\<close>


lemma readRunIDs_sample:
  "readRunIDs (Some ''12,,x7,abc'') = [12, 0, 0, 0]"
  by code_simp



end
